theory Spec2Isabelle
  imports Main
begin

section \<open>The catalog tree\<close>

text \<open>
  The catalog is the JSON document read by \<^verbatim>\<open>load_json_file\<close>: a dictionary with
  the keys \<^verbatim>\<open>name\<close>, \<^verbatim>\<open>objects\<close> and \<^verbatim>\<open>containers\<close>, each of which may be absent;
  an object is a dictionary with the keys \<^verbatim>\<open>name\<close> and \<^verbatim>\<open>category\<close>. An absent key
  is \<open>None\<close>, so \<^verbatim>\<open>d.get(k)\<close> is the field itself and \<^verbatim>\<open>d[k]\<close> raises
  \<^verbatim>\<open>KeyError\<close> on \<open>None\<close>. The empty dictionary \<^verbatim>\<open>{}\<close> is the node with no key.
\<close>

datatype object = Object (obj_name: "string option") (obj_category: "string option")

datatype container =
  Container (cont_name: "string option") (cont_objects: "object list option")
    (cont_containers: "container list option")

datatype error = KeyError string

text \<open>\<^verbatim>\<open>d.get(key, [])\<close>: the list under the key, a fresh empty list when the key is absent.\<close>

definition get_default :: "'a list option \<Rightarrow> 'a list" where
  "get_default v = (case v of None \<Rightarrow> [] | Some xs \<Rightarrow> xs)"

text \<open>\<^verbatim>\<open>d[key]\<close> on a string field.\<close>

definition subscript :: "string \<Rightarrow> string option \<Rightarrow> error + string" where
  "subscript key v = (case v of None \<Rightarrow> Inl (KeyError key) | Some s \<Rightarrow> Inr s)"

text \<open>Truth value of a dictionary in \<^verbatim>\<open>if result:\<close>: false exactly for the empty one.\<close>

definition object_truthy :: "object \<Rightarrow> bool" where
  "object_truthy x = (obj_name x \<noteq> None \<or> obj_category x \<noteq> None)"

definition container_truthy :: "container \<Rightarrow> bool" where
  "container_truthy c =
     (cont_name c \<noteq> None \<or> cont_objects c \<noteq> None \<or> cont_containers c \<noteq> None)"

text \<open>The test \<^verbatim>\<open>object.get("name") == object_name\<close> of the three object loops.\<close>

definition named :: "string \<Rightarrow> object \<Rightarrow> bool" where
  "named n x = (obj_name x = Some n)"

lemma size_get_default [termination_simp]:
  "size_list size (get_default cs) < Suc (size_option (size_list size) cs)"
  by (cases cs) (simp_all add: get_default_def)

section \<open>catalog\_manage\<close>

subsection \<open>get\_object\_info\<close>

text \<open>
  The first loop returns \<^verbatim>\<open>[object["name"], object["category"], data["name"]]\<close>, its
  three subscripts evaluated from left to right; the second loop returns
  \<^verbatim>\<open>result + [data["name"]]\<close> for the first child whose result is a non-empty list.
  An exception raised by a subscript or by a recursive call leaves the function.
\<close>

definition object_info :: "string option \<Rightarrow> object \<Rightarrow> error + string list" where
  "object_info nm x =
     (case subscript ''name'' (obj_name x) of
        Inl e \<Rightarrow> Inl e
      | Inr a \<Rightarrow>
          (case subscript ''category'' (obj_category x) of
             Inl e \<Rightarrow> Inl e
           | Inr b \<Rightarrow>
               (case subscript ''name'' nm of
                  Inl e \<Rightarrow> Inl e
                | Inr c \<Rightarrow> Inr [a, b, c])))"

definition append_name :: "string option \<Rightarrow> string list \<Rightarrow> error + string list" where
  "append_name nm result =
     (case subscript ''name'' nm of Inl e \<Rightarrow> Inl e | Inr c \<Rightarrow> Inr (result @ [c]))"

fun get_object_info :: "container \<Rightarrow> string \<Rightarrow> error + string list"
  and get_object_info_loop :: "string option \<Rightarrow> container list \<Rightarrow> string \<Rightarrow> error + string list"
  where
  "get_object_info (Container nm objs cs) object_to_search =
     (case find (named object_to_search) (get_default objs) of
        Some x \<Rightarrow> object_info nm x
      | None \<Rightarrow> get_object_info_loop nm (get_default cs) object_to_search)"
| "get_object_info_loop nm [] object_to_search = Inr []"
| "get_object_info_loop nm (c # cs) object_to_search =
     (case get_object_info c object_to_search of
        Inl e \<Rightarrow> Inl e
      | Inr result \<Rightarrow>
          if result \<noteq> [] then append_name nm result
          else get_object_info_loop nm cs object_to_search)"

subsection \<open>delete\_object\<close>

text \<open>
  The tree is changed in place; the model returns the result together with the tree
  after the call. \<^verbatim>\<open>objects_list.remove(object)\<close> removes the first element equal to
  \<^verbatim>\<open>object\<close>, which is \<open>remove1\<close>. When the key \<^verbatim>\<open>objects\<close> is absent the loop runs over
  the fresh empty list and the node keeps no such key.
\<close>

fun delete_object :: "container \<Rightarrow> string \<Rightarrow> bool \<times> container"
  and delete_object_loop :: "container list \<Rightarrow> string \<Rightarrow> bool \<times> container list" where
  "delete_object (Container nm objs cs) object_name =
     (case find (named object_name) (get_default objs) of
        Some x \<Rightarrow> (True, Container nm (map_option (remove1 x) objs) cs)
      | None \<Rightarrow>
          (case delete_object_loop (get_default cs) object_name of
             (r, cs') \<Rightarrow> (r, Container nm objs (map_option (\<lambda>_. cs') cs))))"
| "delete_object_loop [] object_name = (False, [])"
| "delete_object_loop (c # cs) object_name =
     (case delete_object c object_name of
        (r, c') \<Rightarrow>
          if r then (True, c' # cs)
          else (case delete_object_loop cs object_name of (r', cs') \<Rightarrow> (r', c' # cs')))"

subsection \<open>get\_object\<close>

fun get_object :: "container \<Rightarrow> string \<Rightarrow> object option"
  and get_object_loop :: "container list \<Rightarrow> string \<Rightarrow> object option" where
  "get_object (Container nm objs cs) object_name =
     (case find (named object_name) (get_default objs) of
        Some x \<Rightarrow> Some x
      | None \<Rightarrow> get_object_loop (get_default cs) object_name)"
| "get_object_loop [] object_name = None"
| "get_object_loop (c # cs) object_name =
     (case get_object c object_name of
        Some result \<Rightarrow>
          if object_truthy result then Some result else get_object_loop cs object_name
      | None \<Rightarrow> get_object_loop cs object_name)"

text \<open>
  The dictionary returned by \<^verbatim>\<open>get_object\<close> is the one stored in the tree, not a copy.
  A reference to it is its position: the indices of the child containers from the root
  down to the node that holds it, and its index in that node's list of objects.
\<close>

type_synonym cref = "nat list"
type_synonym oref = "nat list \<times> nat"

fun find_index :: "string \<Rightarrow> object list \<Rightarrow> nat option" where
  "find_index n [] = None"
| "find_index n (x # xs) = (if named n x then Some 0 else map_option Suc (find_index n xs))"

fun get_object_ref :: "container \<Rightarrow> string \<Rightarrow> oref option"
  and get_object_ref_loop :: "nat \<Rightarrow> container list \<Rightarrow> string \<Rightarrow> oref option" where
  "get_object_ref (Container nm objs cs) object_name =
     (case find_index object_name (get_default objs) of
        Some i \<Rightarrow> Some ([], i)
      | None \<Rightarrow> get_object_ref_loop 0 (get_default cs) object_name)"
| "get_object_ref_loop k [] object_name = None"
| "get_object_ref_loop k (c # cs) object_name =
     (case get_object_ref c object_name of
        Some (p, i) \<Rightarrow> Some (k # p, i)
      | None \<Rightarrow> get_object_ref_loop (Suc k) cs object_name)"

text \<open>Reading and writing through a reference.\<close>

fun container_at :: "container \<Rightarrow> cref \<Rightarrow> container option" where
  "container_at c [] = Some c"
| "container_at (Container nm objs cs) (k # p) =
     (if k < length (get_default cs) then container_at (get_default cs ! k) p else None)"

definition object_at :: "container \<Rightarrow> oref \<Rightarrow> object option" where
  "object_at c r =
     (case container_at c (fst r) of
        None \<Rightarrow> None
      | Some d \<Rightarrow>
          if snd r < length (get_default (cont_objects d))
          then Some (get_default (cont_objects d) ! snd r) else None)"

fun map_at :: "cref \<Rightarrow> (container \<Rightarrow> container) \<Rightarrow> container \<Rightarrow> container" where
  "map_at [] f c = f c"
| "map_at (k # p) f (Container nm objs cs) =
     Container nm objs
       (map_option (\<lambda>l. if k < length l then l[k := map_at p f (l ! k)] else l) cs)"

definition map_objects :: "(object list \<Rightarrow> object list) \<Rightarrow> container \<Rightarrow> container" where
  "map_objects f c =
     Container (cont_name c) (map_option f (cont_objects c)) (cont_containers c)"

definition update_at :: "container \<Rightarrow> oref \<Rightarrow> (object \<Rightarrow> object) \<Rightarrow> container" where
  "update_at c r f = map_at (fst r) (map_objects (\<lambda>l. l[snd r := f (l ! snd r)])) c"

definition remove_at :: "container \<Rightarrow> oref \<Rightarrow> container" where
  "remove_at c r = map_at (fst r) (map_objects (\<lambda>l. take (snd r) l @ drop (Suc (snd r)) l)) c"

subsection \<open>modify\_object\<close>

text \<open>
  \<^verbatim>\<open>if new_object_name:\<close> holds for a non-empty string. The two assignments write
  into the dictionary that \<^verbatim>\<open>get_object\<close> returned.
\<close>

definition assign :: "string \<Rightarrow> string \<Rightarrow> object \<Rightarrow> object" where
  "assign new_object_name new_category_name x =
     (let x1 = (if new_object_name \<noteq> [] then Object (Some new_object_name) (obj_category x)
                else x)
      in if new_category_name \<noteq> [] then Object (obj_name x1) (Some new_category_name) else x1)"

definition modify_object :: "container \<Rightarrow> string \<Rightarrow> string \<Rightarrow> string \<Rightarrow> bool \<times> container" where
  "modify_object data object_name new_object_name new_category_name =
     (case get_object_ref data object_name of
        None \<Rightarrow> (False, data)
      | Some r \<Rightarrow> (True, update_at data r (assign new_object_name new_category_name)))"

subsection \<open>get\_container\_by\_name\<close>

fun get_container_by_name :: "container \<Rightarrow> string \<Rightarrow> container option"
  and get_container_by_name_loop :: "container list \<Rightarrow> string \<Rightarrow> container option" where
  "get_container_by_name (Container nm objs cs) container_name =
     (if nm = Some container_name then Some (Container nm objs cs)
      else get_container_by_name_loop (get_default cs) container_name)"
| "get_container_by_name_loop [] container_name = None"
| "get_container_by_name_loop (c # cs) container_name =
     (case get_container_by_name c container_name of
        Some result \<Rightarrow>
          if container_truthy result then Some result
          else get_container_by_name_loop cs container_name
      | None \<Rightarrow> get_container_by_name_loop cs container_name)"

fun get_container_ref :: "container \<Rightarrow> string \<Rightarrow> cref option"
  and get_container_ref_loop :: "nat \<Rightarrow> container list \<Rightarrow> string \<Rightarrow> cref option" where
  "get_container_ref (Container nm objs cs) container_name =
     (if nm = Some container_name then Some []
      else get_container_ref_loop 0 (get_default cs) container_name)"
| "get_container_ref_loop k [] container_name = None"
| "get_container_ref_loop k (c # cs) container_name =
     (case get_container_ref c container_name of
        Some p \<Rightarrow> Some (k # p)
      | None \<Rightarrow> get_container_ref_loop (Suc k) cs container_name)"

subsection \<open>The searches with the tree they leave\<close>

text \<open>
  The three searches receive the same mutable dictionary as \<^verbatim>\<open>delete_object\<close>. Read
  like \<^verbatim>\<open>delete_object\<close> above, each returns its result together with the tree after
  the call: every recursive call hands back the child it was given, as the call left it,
  and the node is rebuilt from these. An exception leaves the tree as it is at that point.
\<close>

fun get_object_info_st :: "container \<Rightarrow> string \<Rightarrow> (error + string list) \<times> container"
  and get_object_info_st_loop ::
    "string option \<Rightarrow> container list \<Rightarrow> string \<Rightarrow> (error + string list) \<times> container list"
  where
  "get_object_info_st (Container nm objs cs) object_to_search =
     (case find (named object_to_search) (get_default objs) of
        Some x \<Rightarrow> (object_info nm x, Container nm objs cs)
      | None \<Rightarrow>
          (case get_object_info_st_loop nm (get_default cs) object_to_search of
             (r, cs') \<Rightarrow> (r, Container nm objs (map_option (\<lambda>_. cs') cs))))"
| "get_object_info_st_loop nm [] object_to_search = (Inr [], [])"
| "get_object_info_st_loop nm (c # cs) object_to_search =
     (case get_object_info_st c object_to_search of
        (Inl e, c') \<Rightarrow> (Inl e, c' # cs)
      | (Inr result, c') \<Rightarrow>
          if result \<noteq> [] then (append_name nm result, c' # cs)
          else (case get_object_info_st_loop nm cs object_to_search of
                  (r, cs') \<Rightarrow> (r, c' # cs')))"

fun get_object_st :: "container \<Rightarrow> string \<Rightarrow> object option \<times> container"
  and get_object_st_loop :: "container list \<Rightarrow> string \<Rightarrow> object option \<times> container list" where
  "get_object_st (Container nm objs cs) object_name =
     (case find (named object_name) (get_default objs) of
        Some x \<Rightarrow> (Some x, Container nm objs cs)
      | None \<Rightarrow>
          (case get_object_st_loop (get_default cs) object_name of
             (r, cs') \<Rightarrow> (r, Container nm objs (map_option (\<lambda>_. cs') cs))))"
| "get_object_st_loop [] object_name = (None, [])"
| "get_object_st_loop (c # cs) object_name =
     (case get_object_st c object_name of
        (Some result, c') \<Rightarrow>
          if object_truthy result then (Some result, c' # cs)
          else (case get_object_st_loop cs object_name of (r, cs') \<Rightarrow> (r, c' # cs'))
      | (None, c') \<Rightarrow>
          (case get_object_st_loop cs object_name of (r, cs') \<Rightarrow> (r, c' # cs')))"

fun get_container_by_name_st :: "container \<Rightarrow> string \<Rightarrow> container option \<times> container"
  and get_container_by_name_st_loop ::
    "container list \<Rightarrow> string \<Rightarrow> container option \<times> container list" where
  "get_container_by_name_st (Container nm objs cs) container_name =
     (if nm = Some container_name then (Some (Container nm objs cs), Container nm objs cs)
      else (case get_container_by_name_st_loop (get_default cs) container_name of
              (r, cs') \<Rightarrow> (r, Container nm objs (map_option (\<lambda>_. cs') cs))))"
| "get_container_by_name_st_loop [] container_name = (None, [])"
| "get_container_by_name_st_loop (c # cs) container_name =
     (case get_container_by_name_st c container_name of
        (Some result, c') \<Rightarrow>
          if container_truthy result then (Some result, c' # cs)
          else (case get_container_by_name_st_loop cs container_name of
                  (r, cs') \<Rightarrow> (r, c' # cs'))
      | (None, c') \<Rightarrow>
          (case get_container_by_name_st_loop cs container_name of
             (r, cs') \<Rightarrow> (r, c' # cs')))"

section \<open>catalog\_interface\<close>

text \<open>
  What the user types is a parameter: the lines answered to the container prompt, each
  already stripped and lowercased, and the object built by \<^verbatim>\<open>create_new_object\<close>.
  \<^verbatim>\<open>get_container_for_adding\<close> asks again until \<^verbatim>\<open>get_container_by_name\<close> returns a
  container; when the input ends first, \<^verbatim>\<open>input\<close> raises and nothing is added, which
  is \<open>None\<close> here. The container it returns is the one stored in the tree.
\<close>

fun get_container_for_adding :: "container \<Rightarrow> string list \<Rightarrow> cref option" where
  "get_container_for_adding data [] = None"
| "get_container_for_adding data (line # lines) =
     (case get_container_ref data line of
        Some p \<Rightarrow> Some p
      | None \<Rightarrow> get_container_for_adding data lines)"

text \<open>
  \<^verbatim>\<open>container.get("objects", []).append(new_object)\<close>: the list under the key grows
  by one element at its end; when the key is absent the element is appended to the fresh
  default list, which no node holds.
\<close>

definition append_object :: "object \<Rightarrow> container \<Rightarrow> container" where
  "append_object new_object c =
     Container (cont_name c)
       (case cont_objects c of None \<Rightarrow> None | Some l \<Rightarrow> Some (l @ [new_object]))
       (cont_containers c)"

definition add_object :: "container \<Rightarrow> object \<Rightarrow> string list \<Rightarrow> container option" where
  "add_object data new_object lines =
     (case get_container_for_adding data lines of
        None \<Rightarrow> None
      | Some p \<Rightarrow> Some (map_at p (append_object new_object) data))"

section \<open>data\_storage\<close>

text \<open>
  The body of each \<^verbatim>\<open>try\<close> either completes or raises an exception of some class;
  which one is decided by the file system and by \<^verbatim>\<open>json\<close>, so it is the argument.
  \<^verbatim>\<open>except C\<close> handles the exceptions whose class is \<^verbatim>\<open>C\<close> or derives from it;
  the classes below are those of the Python library that \<^verbatim>\<open>open\<close>, \<^verbatim>\<open>json.load\<close>
  and \<^verbatim>\<open>json.dump\<close> raise, with their base classes.
\<close>

datatype exn =
  FileNotFoundError | PermissionError | IsADirectoryError | OSError
  | JSONDecodeError | UnicodeDecodeError | ValueError | TypeError | RecursionError

fun base :: "exn \<Rightarrow> exn option" where
  "base FileNotFoundError = Some OSError"
| "base PermissionError = Some OSError"
| "base IsADirectoryError = Some OSError"
| "base JSONDecodeError = Some ValueError"
| "base UnicodeDecodeError = Some ValueError"
| "base OSError = None"
| "base ValueError = None"
| "base TypeError = None"
| "base RecursionError = None"

definition isinstance :: "exn \<Rightarrow> exn \<Rightarrow> bool" where
  "isinstance e c = (e = c \<or> base e = Some c)"

text \<open>
  The outcome of a call: the value returned or the exception that leaves the function,
  and whether a diagnostic was printed.
\<close>

definition load_json_file :: "exn + container \<Rightarrow> (exn + container) \<times> bool" where
  "load_json_file body =
     (case body of
        Inr parsed \<Rightarrow> (Inr parsed, False)
      | Inl e \<Rightarrow>
          if isinstance e FileNotFoundError then (Inr (Container None None None), True)
          else if isinstance e JSONDecodeError then (Inr (Container None None None), True)
          else (Inl e, False))"

definition save_json_file :: "exn + unit \<Rightarrow> (exn + unit) \<times> bool" where
  "save_json_file body =
     (case body of
        Inr u \<Rightarrow> (Inr (), False)
      | Inl e \<Rightarrow>
          if isinstance e OSError \<or> isinstance e TypeError then (Inr (), True)
          else (Inl e, False))"

section \<open>The traversal order\<close>

text \<open>
  Depth first, the objects of a node in list order before its child containers, the
  child containers in list order.
\<close>

fun all_objects :: "container \<Rightarrow> object list"
  and all_objects_loop :: "container list \<Rightarrow> object list" where
  "all_objects (Container nm objs cs) = get_default objs @ all_objects_loop (get_default cs)"
| "all_objects_loop [] = []"
| "all_objects_loop (c # cs) = all_objects c @ all_objects_loop cs"

fun all_containers :: "container \<Rightarrow> container list"
  and all_containers_loop :: "container list \<Rightarrow> container list" where
  "all_containers (Container nm objs cs) =
     Container nm objs cs # all_containers_loop (get_default cs)"
| "all_containers_loop [] = []"
| "all_containers_loop (c # cs) = all_containers c @ all_containers_loop cs"

text \<open>The same order with the position of every object.\<close>

fun traverse :: "container \<Rightarrow> (oref \<times> object) list"
  and traverse_loop :: "nat \<Rightarrow> container list \<Rightarrow> (oref \<times> object) list" where
  "traverse (Container nm objs cs) =
     map (\<lambda>(i, x). (([], i), x)) (enumerate 0 (get_default objs))
     @ traverse_loop 0 (get_default cs)"
| "traverse_loop k [] = []"
| "traverse_loop k (c # cs) =
     map (\<lambda>((p, i), x). ((k # p, i), x)) (traverse c) @ traverse_loop (Suc k) cs"

definition first_match :: "container \<Rightarrow> string \<Rightarrow> (oref \<times> object) option" where
  "first_match T n = find (\<lambda>e. named n (snd e)) (traverse T)"

text \<open>
  The names on the way from the root to the container at a position, root first, and
  what \<^verbatim>\<open>get_object_info\<close> makes of an object at a position: its name, its category and
  these names from the innermost outwards, or the \<^verbatim>\<open>KeyError\<close> of the first key that is
  absent in this order.
\<close>

fun names_along :: "container \<Rightarrow> cref \<Rightarrow> string option list" where
  "names_along c [] = [cont_name c]"
| "names_along (Container nm objs cs) (k # p) =
     nm # (if k < length (get_default cs) then names_along (get_default cs ! k) p else [])"

definition info_at :: "container \<Rightarrow> oref \<Rightarrow> object \<Rightarrow> error + string list" where
  "info_at T r x =
     (case obj_name x of
        None \<Rightarrow> Inl (KeyError ''name'')
      | Some a \<Rightarrow>
          (case obj_category x of
             None \<Rightarrow> Inl (KeyError ''category'')
           | Some b \<Rightarrow>
               (case those (names_along T (fst r)) of
                  None \<Rightarrow> Inl (KeyError ''name'')
                | Some ns \<Rightarrow> Inr ([a, b] @ rev ns))))"

text \<open>
  A list of objects without its first element of a given name, and the number of objects
  of a given name in a tree.
\<close>

fun remove_first :: "string \<Rightarrow> object list \<Rightarrow> object list" where
  "remove_first n [] = []"
| "remove_first n (x # xs) = (if named n x then xs else x # remove_first n xs)"

definition occurrences :: "container \<Rightarrow> string \<Rightarrow> nat" where
  "occurrences T n = length (filter (named n) (all_objects T))"

section \<open>Auxiliary notions\<close>

text \<open>
  Positions inside a list of child containers, as the loops over \<^verbatim>\<open>containers\<close> see
  them: \<open>shift k\<close> moves the first index of a position by \<open>k\<close>; \<open>remove_in\<close> and
  \<open>info_in\<close> are \<open>remove_at\<close> and \<open>info_at\<close> below the child a position starts with.
\<close>

definition shift :: "nat \<Rightarrow> oref \<Rightarrow> oref" where
  "shift k r = (case fst r of [] \<Rightarrow> r | j # p \<Rightarrow> ((k + j) # p, snd r))"

definition remove_in :: "container list \<Rightarrow> oref \<Rightarrow> container list" where
  "remove_in cs r =
     (case fst r of [] \<Rightarrow> cs | j # p \<Rightarrow> cs[j := remove_at (cs ! j) (p, snd r)])"

definition info_in :: "string option \<Rightarrow> container list \<Rightarrow> oref \<Rightarrow> object \<Rightarrow> error + string list" where
  "info_in nm cs r x =
     (case fst r of
        [] \<Rightarrow> Inr []
      | j # p \<Rightarrow>
          (case info_at (cs ! j) (p, snd r) x of
             Inl e \<Rightarrow> Inl e
           | Inr res \<Rightarrow> append_name nm res))"

section \<open>Example trees\<close>

definition bulb :: object where
  "bulb = Object (Some ''bulb'') (Some ''lighting'')"

definition hammer :: object where
  "hammer = Object (Some ''hammer'') (Some ''tools'')"

definition key :: object where
  "key = Object (Some ''key'') (Some ''misc'')"

definition container_a :: container where
  "container_a = Container (Some ''a'') (Some [bulb]) (Some [])"

definition container_b :: container where
  "container_b = Container (Some ''b'') (Some [bulb]) None"

definition garage :: container where
  "garage =
     Container (Some ''garage'') (Some [])
       (Some [Container (Some ''shelf'') (Some [hammer]) (Some [])])"

definition house :: container where
  "house = Container (Some ''house'') (Some [key]) (Some [container_a, container_b, garage])"

lemmas examples = bulb_def hammer_def key_def container_a_def container_b_def garage_def house_def

section \<open>Properties of the searches\<close>

lemma named_truthy: "named n x \<Longrightarrow> object_truthy x"
  by (simp add: named_def object_truthy_def)

lemma find_named: "find (named n) xs = Some x \<Longrightarrow> named n x"
  by (induction xs) (auto split: if_splits)

lemma find_in_set: "find P xs = Some x \<Longrightarrow> x \<in> set xs"
  by (induction xs) (auto split: if_splits)

lemma get_object_named:
  "get_object c n = Some r \<Longrightarrow> named n r"
  "get_object_loop cs n = Some r \<Longrightarrow> named n r"
  by (induction c n and cs n rule: get_object_get_object_loop.induct)
     (auto split: option.splits if_splits dest: find_named)

lemma get_object_None:
  "get_object c n = None \<longleftrightarrow> (\<forall>x \<in> set (all_objects c). \<not> named n x)"
  "get_object_loop cs n = None \<longleftrightarrow> (\<forall>x \<in> set (all_objects_loop cs). \<not> named n x)"
proof (induction c n and cs n rule: get_object_get_object_loop.induct)
  case (1 nm objs cs n)
  then show ?case
    by (auto simp: find_None_iff split: option.splits dest: find_named find_in_set)
next
  case (2 n)
  show ?case by simp
next
  case (3 c cs n)
  then show ?case
    by (auto split: option.splits dest: get_object_named named_truthy)
qed

subsection \<open>The first match\<close>

lemma find_append:
  "find P (xs @ ys) = (case find P xs of None \<Rightarrow> find P ys | Some x \<Rightarrow> Some x)"
  by (induction xs) auto

lemma find_map: "find P (map f xs) = map_option f (find (\<lambda>x. P (f x)) xs)"
  by (induction xs) auto

lemma find_index_find: "find (named n) xs = map_option (\<lambda>i. xs ! i) (find_index n xs)"
  by (induction xs) (auto simp: option.map_comp comp_def)

lemma find_index_enumerate:
  "find (\<lambda>e. named n (snd e)) (enumerate k xs) = map_option (\<lambda>i. (k + i, xs ! i)) (find_index n xs)"
  by (induction xs arbitrary: k) (auto simp: option.map_comp comp_def)

lemma find_index_less: "find_index n xs = Some i \<Longrightarrow> i < length xs \<and> named n (xs ! i)"
  by (induction xs arbitrary: i) (auto split: if_splits)

lemma find_index_remove1:
  "find_index n xs = Some i \<Longrightarrow> remove1 (xs ! i) xs = take i xs @ drop (Suc i) xs"
proof (induction xs arbitrary: i)
  case Nil
  then show ?case by simp
next
  case (Cons x xs)
  show ?case
  proof (cases "named n x")
    case True
    with Cons.prems show ?thesis by simp
  next
    case False
    with Cons.prems obtain j where j: "find_index n xs = Some j" "i = Suc j"
      by auto
    from find_index_less [OF j(1)] False have "xs ! j \<noteq> x" by auto
    with Cons.IH [OF j(1)] j(2) show ?thesis by simp
  qed
qed

lemma traverse_loop_shift:
  "traverse_loop k cs = map (\<lambda>(r, x). (shift k r, x)) (traverse_loop 0 cs)"
proof (induction cs arbitrary: k)
  case Nil
  show ?case by simp
next
  case (Cons c cs)
  have "traverse_loop (Suc k) cs = map (\<lambda>(r, x). (shift (Suc k) r, x)) (traverse_loop 0 cs)"
    by (rule Cons.IH)
  moreover have "traverse_loop (Suc 0) cs = map (\<lambda>(r, x). (shift (Suc 0) r, x)) (traverse_loop 0 cs)"
    by (rule Cons.IH)
  ultimately show ?case
    by (auto simp: shift_def split: list.splits)
qed

lemma get_object_traverse:
  "get_object c n = map_option snd (find (\<lambda>e. named n (snd e)) (traverse c))"
  "\<forall>k. get_object_loop cs n = map_option snd (find (\<lambda>e. named n (snd e)) (traverse_loop k cs))"
proof (induction c n and cs n rule: get_object_get_object_loop.induct)
  case (1 nm objs cs n)
  then show ?case
    by (simp add: find_append find_map find_index_enumerate find_index_find case_prod_unfold
        split: option.splits)
next
  case (2 n)
  show ?case by simp
next
  case (3 c cs n)
  show ?case
  proof
    fix k
    show "get_object_loop (c # cs) n =
      map_option snd (find (\<lambda>e. named n (snd e)) (traverse_loop k (c # cs)))"
    proof (cases "get_object c n")
      case None
      with 3 show ?thesis
        by (simp add: find_append find_map case_prod_unfold split: option.splits)
    next
      case (Some r)
      then have "object_truthy r"
        by (auto dest: get_object_named named_truthy)
      with Some 3 show ?thesis
        by (auto simp add: find_append find_map case_prod_unfold split: option.splits)
    qed
  qed
qed

lemma get_object_ref_traverse:
  "get_object_ref c n = map_option fst (find (\<lambda>e. named n (snd e)) (traverse c))"
  "get_object_ref_loop k cs n = map_option fst (find (\<lambda>e. named n (snd e)) (traverse_loop k cs))"
proof (induction c n and k cs n rule: get_object_ref_get_object_ref_loop.induct)
  case (1 nm objs cs n)
  then show ?case
    by (simp add: find_append find_map find_index_enumerate case_prod_unfold
        split: option.splits)
next
  case (2 k n)
  show ?case by simp
next
  case (3 k c cs n)
  then show ?case
    by (auto simp add: find_append find_map case_prod_unfold split: option.splits)
qed

lemma shift_shift: "shift k (shift (Suc 0) r) = shift (Suc k) r"
  by (simp add: shift_def split: list.splits)

lemma get_object_ref_loop_shift:
  "get_object_ref_loop k cs n = map_option (shift k) (get_object_ref_loop 0 cs n)"
proof (induction cs arbitrary: k)
  case Nil
  show ?case by simp
next
  case (Cons c cs)
  have a: "get_object_ref_loop (Suc k) cs n = map_option (shift (Suc k)) (get_object_ref_loop 0 cs n)"
    by (rule Cons.IH)
  have b: "get_object_ref_loop (Suc 0) cs n = map_option (shift (Suc 0)) (get_object_ref_loop 0 cs n)"
    by (rule Cons.IH)
  show ?case
  proof (cases "get_object_ref c n")
    case None
    then show ?thesis
      by (simp add: a b option.map_comp comp_def shift_shift)
  next
    case (Some r)
    then show ?thesis
      by (cases r) (simp add: shift_def)
  qed
qed

lemma get_object_ref_loop_path:
  "get_object_ref_loop k cs n = Some r \<Longrightarrow> fst r \<noteq> []"
  by (induction cs arbitrary: k) (auto split: option.splits)

lemma remove_in_Cons:
  "fst r \<noteq> [] \<Longrightarrow> remove_in (c # cs) (shift (Suc 0) r) = c # remove_in cs r"
  by (cases r) (auto simp: remove_in_def shift_def split: list.splits)

lemma map_option_get_default: "map_option (\<lambda>_. get_default cs) cs = cs"
  by (cases cs) (simp_all add: get_default_def)

lemma remove_at_child:
  "remove_at (Container nm objs cs) (j # p, i) =
     Container nm objs (map_option (\<lambda>_. remove_in (get_default cs) (j # p, i)) cs)"
  by (cases cs) (simp_all add: remove_at_def remove_in_def get_default_def list_update_beyond)

lemma delete_object_ref:
  "delete_object c n =
     (case get_object_ref c n of None \<Rightarrow> (False, c) | Some r \<Rightarrow> (True, remove_at c r))"
  "delete_object_loop cs n =
     (case get_object_ref_loop 0 cs n of
        None \<Rightarrow> (False, cs)
      | Some r \<Rightarrow> (True, remove_in cs r))"
proof (induction c n and cs n rule: delete_object_delete_object_loop.induct)
  case (1 nm objs cs n)
  show ?case
  proof (cases "find_index n (get_default objs)")
    case (Some i)
    then obtain l where l: "objs = Some l"
      by (cases objs) (auto simp: get_default_def)
    from Some l have "remove1 (l ! i) l = take i l @ drop (Suc i) l"
      by (simp add: find_index_remove1 get_default_def)
    with Some l show ?thesis
      by (simp add: find_index_find remove_at_def map_objects_def get_default_def)
  next
    case None
    then have f: "find (named n) (get_default objs) = None"
      by (simp add: find_index_find)
    show ?thesis
    proof (cases "get_object_ref_loop 0 (get_default cs) n")
      case None
      with f \<open>find_index n (get_default objs) = None\<close> 1 show ?thesis
        by (simp add: map_option_get_default)
    next
      case (Some r)
      then obtain j p i where r: "r = (j # p, i)"
        by (cases r; cases "fst r") (auto dest: get_object_ref_loop_path)
      with Some f \<open>find_index n (get_default objs) = None\<close> 1 show ?thesis
        by (simp add: remove_at_child)
    qed
  qed
next
  case (2 n)
  show ?case by simp
next
  case (3 c cs n)
  show ?case
  proof (cases "get_object_ref c n")
    case (Some r)
    with 3 show ?thesis
      by (cases r) (simp add: remove_in_def)
  next
    case None
    with 3 have d: "delete_object c n = (False, c)" by simp
    have IH: "delete_object_loop cs n =
      (case get_object_ref_loop 0 cs n of None \<Rightarrow> (False, cs) | Some r \<Rightarrow> (True, remove_in cs r))"
      using "3.IH"(2) [OF d [symmetric]] by simp
    show ?thesis
    proof (cases "get_object_ref_loop 0 cs n")
      case None2: None
      with None d IH show ?thesis
        by (simp add: get_object_ref_loop_shift [of "Suc 0"])
    next
      case (Some r)
      then have "fst r \<noteq> []" by (rule get_object_ref_loop_path)
      with None Some d IH show ?thesis
        by (simp add: get_object_ref_loop_shift [of "Suc 0"] remove_in_Cons)
    qed
  qed
qed

lemma info_at_nonempty: "info_at c r x \<noteq> Inr []"
  by (simp add: info_at_def split: option.splits)

lemma traverse_loop_path:
  "(r, x) \<in> set (traverse_loop k cs) \<Longrightarrow> \<exists>j p. fst r = j # p \<and> k \<le> j \<and> j < k + length cs"
proof (induction cs arbitrary: k)
  case Nil
  then show ?case by simp
next
  case (Cons c cs)
  from Cons.prems have "(\<exists>p i. r = (k # p, i)) \<or> (r, x) \<in> set (traverse_loop (Suc k) cs)"
    by auto
  then show ?case
  proof
    assume "\<exists>p i. r = (k # p, i)"
    then show ?thesis by auto
  next
    assume "(r, x) \<in> set (traverse_loop (Suc k) cs)"
    from Cons.IH [OF this] show ?thesis by auto
  qed
qed

lemma info_at_root: "info_at (Container nm objs cs) ([], i) x = object_info nm x"
  by (simp add: info_at_def object_info_def subscript_def split: option.splits)

lemma info_at_child:
  "j < length (get_default cs) \<Longrightarrow>
   info_at (Container nm objs cs) (j # p, i) x = info_in nm (get_default cs) (j # p, i) x"
  by (simp add: info_at_def info_in_def append_name_def subscript_def split: option.splits)

lemma info_in_Cons:
  "fst r \<noteq> [] \<Longrightarrow> info_in nm (c # cs) (shift (Suc 0) r) x = info_in nm cs r x"
  by (cases r) (auto simp: info_in_def shift_def split: list.splits)

lemma get_object_info_traverse:
  "get_object_info c n =
     (case find (\<lambda>e. named n (snd e)) (traverse c) of
        None \<Rightarrow> Inr []
      | Some (r, x) \<Rightarrow> info_at c r x)"
  "get_object_info_loop nm cs n =
     (case find (\<lambda>e. named n (snd e)) (traverse_loop 0 cs) of
        None \<Rightarrow> Inr []
      | Some (r, x) \<Rightarrow> info_in nm cs r x)"
proof (induction c n and nm cs n rule: get_object_info_get_object_info_loop.induct)
  case (1 nm objs cs n)
  show ?case
  proof (cases "find_index n (get_default objs)")
    case (Some i)
    then show ?thesis
      by (simp add: find_append find_map find_index_enumerate find_index_find case_prod_unfold
          info_at_root)
  next
    case None
    then have f: "find (named n) (get_default objs) = None"
      by (simp add: find_index_find)
    show ?thesis
    proof (cases "find (\<lambda>e. named n (snd e)) (traverse_loop 0 (get_default cs))")
      case None2: None
      with None f 1 show ?thesis
        by (simp add: find_append find_map find_index_enumerate case_prod_unfold)
    next
      case (Some e)
      obtain r x where e: "e = (r, x)" by (cases e)
      from Some e have "(r, x) \<in> set (traverse_loop 0 (get_default cs))"
        by (auto dest: find_in_set)
      then obtain j p where "fst r = j # p" "j < length (get_default cs)"
        by (auto dest: traverse_loop_path)
      then have "info_at (Container nm objs cs) r x = info_in nm (get_default cs) r x"
        by (cases r) (simp add: info_at_child)
      with Some e None f 1 show ?thesis
        by (simp add: find_append find_map find_index_enumerate case_prod_unfold)
    qed
  qed
next
  case (2 nm n)
  show ?case by simp
next
  case (3 nm c cs n)
  show ?case
  proof (cases "find (\<lambda>e. named n (snd e)) (traverse c)")
    case (Some e)
    obtain r x where e: "e = (r, x)" by (cases e)
    with Some 3 have g: "get_object_info c n = info_at c r x" by simp
    show ?thesis
    proof (cases "info_at c r x")
      case (Inl err)
      with Some e g show ?thesis
        by (cases r) (simp add: find_append find_map case_prod_unfold info_in_def)
    next
      case (Inr res)
      then have "res \<noteq> []" using info_at_nonempty [of c r x] by auto
      with Inr Some e g show ?thesis
        by (cases r) (simp add: find_append find_map case_prod_unfold info_in_def)
    qed
  next
    case None
    with 3 have g: "get_object_info c n = Inr []" by simp
    have IH: "get_object_info_loop nm cs n =
       (case find (\<lambda>e. named n (snd e)) (traverse_loop 0 cs) of
          None \<Rightarrow> Inr []
        | Some (r, x) \<Rightarrow> info_in nm cs r x)"
      using "3.IH"(2) [OF g] by simp
    have sh: "traverse_loop (Suc 0) cs = map (\<lambda>(r, x). (shift (Suc 0) r, x)) (traverse_loop 0 cs)"
      by (rule traverse_loop_shift)
    show ?thesis
    proof (cases "find (\<lambda>e. named n (snd e)) (traverse_loop 0 cs)")
      case None2: None
      with None g IH show ?thesis
        by (simp add: find_append find_map case_prod_unfold sh)
    next
      case (Some e)
      obtain r x where e: "e = (r, x)" by (cases e)
      from Some e have "(r, x) \<in> set (traverse_loop 0 cs)"
        by (auto dest: find_in_set)
      then have "fst r \<noteq> []"
        by (auto dest: traverse_loop_path)
      then have "info_in nm (c # cs) (shift (Suc 0) r) x = info_in nm cs r x"
        by (rule info_in_Cons)
      with None Some e g IH show ?thesis
        by (simp add: find_append find_map case_prod_unfold sh)
    qed
  qed
qed

lemma map_snd_traverse:
  "map snd (traverse c) = all_objects c"
  "map snd (traverse_loop k cs) = all_objects_loop cs"
  by (induction c and k cs rule: traverse_traverse_loop.induct)
     (simp_all add: case_prod_unfold comp_def map_snd_enumerate)

lemma object_at_root:
  "object_at (Container nm objs cs) ([], i) =
     (if i < length (get_default objs) then Some (get_default objs ! i) else None)"
  by (simp add: object_at_def)

lemma object_at_child:
  "object_at (Container nm objs cs) (j # p, i) =
     (if j < length (get_default cs) then object_at (get_default cs ! j) (p, i) else None)"
  by (simp add: object_at_def split: option.splits)

lemma in_enumerated:
  "((q, i), x) \<in> set (map (\<lambda>(i, x). (([], i), x)) (enumerate 0 xs))
     \<longleftrightarrow> q = [] \<and> i < length xs \<and> x = xs ! i"
proof
  assume "((q, i), x) \<in> set (map (\<lambda>(i, x). (([], i), x)) (enumerate 0 xs))"
  then obtain a b where "(a, b) \<in> set (enumerate 0 xs)" "q = []" "i = a" "x = b"
    by auto
  then show "q = [] \<and> i < length xs \<and> x = xs ! i"
    by (simp add: in_set_enumerate_eq)
next
  assume a: "q = [] \<and> i < length xs \<and> x = xs ! i"
  then have "(i, x) \<in> set (enumerate 0 xs)"
    by (simp add: in_set_enumerate_eq)
  then have "(\<lambda>(i, x). (([], i), x)) (i, x) \<in> set (map (\<lambda>(i, x). (([], i), x)) (enumerate 0 xs))"
    by (simp only: set_map) (rule imageI)
  with a show "((q, i), x) \<in> set (map (\<lambda>(i, x). (([], i), x)) (enumerate 0 xs))"
    by simp
qed

lemma in_tagged:
  "((q, i), x) \<in> set (map (\<lambda>((p, i), x). ((k # p, i), x)) es)
     \<longleftrightarrow> (\<exists>p. q = k # p \<and> ((p, i), x) \<in> set es)"
  by (induction es) auto

lemma traverse_object_at:
  "(r, x) \<in> set (traverse c) \<longleftrightarrow> object_at c r = Some x"
  "(r, x) \<in> set (traverse_loop k cs) \<longleftrightarrow>
     (\<exists>j p. fst r = j # p \<and> k \<le> j \<and> j - k < length cs
        \<and> object_at (cs ! (j - k)) (p, snd r) = Some x)"
proof (induction c and k cs arbitrary: r and r rule: traverse_traverse_loop.induct)
  case (1 nm objs cs)
  obtain q i where r: "r = (q, i)" by (cases r)
  show ?case
  proof (cases q)
    case Nil
    with r 1 show ?thesis
      by (auto simp: object_at_root in_enumerated simp del: set_map)
  next
    case (Cons j p)
    with r 1 show ?thesis
      by (auto simp: object_at_child in_enumerated simp del: set_map)
  qed
next
  case (2 k)
  show ?case by simp
next
  case (3 k c cs)
  obtain q i where r: "r = (q, i)" by (cases r)
  have here: "((q, i), x) \<in> set (map (\<lambda>((p, i), x). ((k # p, i), x)) (traverse c))
     \<longleftrightarrow> (\<exists>p. q = k # p \<and> object_at c (p, i) = Some x)"
    using "3.IH"(1) by (simp only: in_tagged)
  have later: "((q, i), x) \<in> set (traverse_loop (Suc k) cs) \<longleftrightarrow>
     (\<exists>j p. q = j # p \<and> Suc k \<le> j \<and> j - Suc k < length cs
        \<and> object_at (cs ! (j - Suc k)) (p, i) = Some x)"
    using "3.IH"(2) [of "(q, i)"] by simp
  have "((q, i), x) \<in> set (traverse_loop k (c # cs)) \<longleftrightarrow>
     ((q, i), x) \<in> set (map (\<lambda>((p, i), x). ((k # p, i), x)) (traverse c))
     \<or> ((q, i), x) \<in> set (traverse_loop (Suc k) cs)"
    by (simp del: set_map)
  also have "\<dots> \<longleftrightarrow>
     (\<exists>j p. q = j # p \<and> k \<le> j \<and> j - k < length (c # cs)
        \<and> object_at ((c # cs) ! (j - k)) (p, i) = Some x)"
    unfolding here later
  proof (intro iffI; elim disjE exE conjE)
    fix p assume "q = k # p" "object_at c (p, i) = Some x"
    then show "\<exists>j p. q = j # p \<and> k \<le> j \<and> j - k < length (c # cs)
        \<and> object_at ((c # cs) ! (j - k)) (p, i) = Some x"
      by simp
  next
    fix j p assume "q = j # p" "Suc k \<le> j" "j - Suc k < length cs"
      "object_at (cs ! (j - Suc k)) (p, i) = Some x"
    then show "\<exists>j p. q = j # p \<and> k \<le> j \<and> j - k < length (c # cs)
        \<and> object_at ((c # cs) ! (j - k)) (p, i) = Some x"
      by (auto simp: nth_Cons' Suc_diff_Suc)
  next
    fix j p assume a: "q = j # p" "k \<le> j" "j - k < length (c # cs)"
      "object_at ((c # cs) ! (j - k)) (p, i) = Some x"
    show "(\<exists>p. q = k # p \<and> object_at c (p, i) = Some x) \<or>
       (\<exists>j p. q = j # p \<and> Suc k \<le> j \<and> j - Suc k < length cs
          \<and> object_at (cs ! (j - Suc k)) (p, i) = Some x)"
    proof (cases "j = k")
      case True
      with a show ?thesis by simp
    next
      case False
      with a have "Suc k \<le> j" "j - Suc k < length cs" "(c # cs) ! (j - k) = cs ! (j - Suc k)"
        by (auto simp: nth_Cons')
      with a show ?thesis by auto
    qed
  qed
  finally show ?case using r by simp
qed

subsection \<open>Containers by name\<close>

lemma container_named_truthy: "cont_name c = Some n \<Longrightarrow> container_truthy c"
  by (simp add: container_truthy_def)

lemma find_cont_name: "find (\<lambda>c. cont_name c = Some n) xs = Some c \<Longrightarrow> cont_name c = Some n"
  by (induction xs) (auto split: if_splits)

lemma get_container_by_name_all:
  "get_container_by_name c n = find (\<lambda>c. cont_name c = Some n) (all_containers c)"
  "get_container_by_name_loop cs n = find (\<lambda>c. cont_name c = Some n) (all_containers_loop cs)"
proof (induction c n and cs n rule: get_container_by_name_get_container_by_name_loop.induct)
  case (1 nm objs cs n)
  then show ?case by simp
next
  case (2 n)
  show ?case by simp
next
  case (3 c cs n)
  show ?case
  proof (cases "get_container_by_name c n")
    case None
    with 3 show ?thesis by (simp add: find_append)
  next
    case (Some d)
    with 3 have "find (\<lambda>c. cont_name c = Some n) (all_containers c) = Some d" by simp
    then have "container_truthy d"
      by (auto dest: find_cont_name container_named_truthy)
    with Some 3 show ?thesis by (simp add: find_append)
  qed
qed

lemma get_container_by_name_truthy:
  "get_container_by_name c n = Some d \<Longrightarrow> container_truthy d"
  by (auto simp: get_container_by_name_all dest: find_cont_name container_named_truthy)

lemma get_container_ref_at:
  "case get_container_ref c n of
     None \<Rightarrow> get_container_by_name c n = None
   | Some p \<Rightarrow> container_at c p \<noteq> None \<and> get_container_by_name c n = container_at c p"
  "case get_container_ref_loop k cs n of
     None \<Rightarrow> get_container_by_name_loop cs n = None
   | Some p \<Rightarrow>
       (\<exists>j q. p = j # q \<and> k \<le> j \<and> j - k < length cs
          \<and> container_at (cs ! (j - k)) q \<noteq> None
          \<and> get_container_by_name_loop cs n = container_at (cs ! (j - k)) q)"
proof (induction c n and k cs n rule: get_container_ref_get_container_ref_loop.induct)
  case (1 nm objs cs n)
  show ?case
  proof (cases "nm = Some n")
    case True
    then show ?thesis by simp
  next
    case False
    with 1 show ?thesis
      by (auto split: option.splits)
  qed
next
  case (2 k n)
  show ?case by simp
next
  case (3 k c cs n)
  show ?case
  proof (cases "get_container_ref c n")
    case (Some p)
    with "3.IH"(1) obtain d where d: "container_at c p = Some d" "get_container_by_name c n = Some d"
      by auto
    then have "container_truthy d" by (auto dest: get_container_by_name_truthy)
    with Some d show ?thesis by simp
  next
    case None
    with "3.IH"(1) have g: "get_container_by_name c n = None" by simp
    show ?thesis
    proof (cases "get_container_ref_loop (Suc k) cs n")
      case None2: None
      with None g "3.IH"(2) show ?thesis by simp
    next
      case (Some p)
      with None "3.IH"(2) obtain j q where jq: "p = j # q" "Suc k \<le> j" "j - Suc k < length cs"
        "container_at (cs ! (j - Suc k)) q \<noteq> None"
        "get_container_by_name_loop cs n = container_at (cs ! (j - Suc k)) q"
        by auto
      then have "(c # cs) ! (j - k) = cs ! (j - Suc k)" "k \<le> j" "j - k < length (c # cs)"
        by (auto simp: nth_Cons')
      with None Some g jq show ?thesis by simp
    qed
  qed
qed

subsection \<open>Deletion\<close>

lemma remove_first_append:
  "remove_first n (xs @ ys) =
     (if find (named n) xs = None then xs @ remove_first n ys else remove_first n xs @ ys)"
  by (induction xs) auto

lemma find_remove1: "find (named n) xs = Some x \<Longrightarrow> remove1 x xs = remove_first n xs"
  by (induction xs) (auto split: if_splits dest: find_named)

lemma remove_first_None: "find (named n) xs = None \<Longrightarrow> remove_first n xs = xs"
  by (induction xs) (auto split: if_splits)

lemma delete_object_all:
  "delete_object c n =
     (find (named n) (all_objects c) \<noteq> None, snd (delete_object c n))
   \<and> all_objects (snd (delete_object c n)) = remove_first n (all_objects c)"
  "delete_object_loop cs n =
     (find (named n) (all_objects_loop cs) \<noteq> None, snd (delete_object_loop cs n))
   \<and> all_objects_loop (snd (delete_object_loop cs n)) = remove_first n (all_objects_loop cs)"
proof (induction c n and cs n rule: delete_object_delete_object_loop.induct)
  case (1 nm objs cs n)
  show ?case
  proof (cases "find (named n) (get_default objs)")
    case (Some x)
    then obtain l where l: "objs = Some l"
      by (cases objs) (auto simp: get_default_def)
    with Some show ?thesis
      by (simp add: find_append remove_first_append find_remove1 get_default_def)
  next
    case None
    obtain r cs' where d: "delete_object_loop (get_default cs) n = (r, cs')"
      by (cases "delete_object_loop (get_default cs) n")
    have g: "get_default (map_option (\<lambda>_. cs') cs) = cs'" if "cs \<noteq> None"
      using that by (cases cs) (simp_all add: get_default_def)
    have h: "cs' = []" if "cs = None"
      using that d by (simp add: get_default_def)
    from None d "1.IH" [OF None] have
      "r = (find (named n) (all_objects_loop (get_default cs)) \<noteq> None)"
      "all_objects_loop cs' = remove_first n (all_objects_loop (get_default cs))"
      by auto
    with None d g h show ?thesis
      by (cases cs) (simp_all add: find_append remove_first_append remove_first_None get_default_def)
  qed
next
  case (2 n)
  show ?case by simp
next
  case (3 c cs n)
  obtain r c' where d: "delete_object c n = (r, c')"
    by (cases "delete_object c n")
  with "3.IH"(1) have c: "r = (find (named n) (all_objects c) \<noteq> None)"
    "all_objects c' = remove_first n (all_objects c)"
    by auto
  show ?case
  proof (cases r)
    case True
    with d c show ?thesis
      by (auto simp add: find_append remove_first_append)
  next
    case False
    obtain r' cs' where e: "delete_object_loop cs n = (r', cs')"
      by (cases "delete_object_loop cs n")
    from "3.IH"(2) [OF d [symmetric] False] e have
      "r' = (find (named n) (all_objects_loop cs) \<noteq> None)"
      "all_objects_loop cs' = remove_first n (all_objects_loop cs)"
      by auto
    with False d c e show ?thesis
      by (auto simp add: find_append remove_first_append remove_first_None)
  qed
qed

lemma filter_remove_first:
  "length (filter (named n) (remove_first n xs)) = length (filter (named n) xs) - 1"
  by (induction xs) auto

subsection \<open>Writing through a reference\<close>

lemma assign_blank: "assign [] [] x = x"
  by (simp add: assign_def)

lemma map_at_id: "(\<And>c. f c = c) \<Longrightarrow> map_at p f T = T"
proof (induction p arbitrary: T)
  case Nil
  then show ?case by simp
next
  case (Cons k p)
  obtain nm objs cs where T: "T = Container nm objs cs" by (cases T)
  have "map_option (\<lambda>l. if k < length l then l[k := map_at p f (l ! k)] else l) cs = cs"
    by (cases cs) (simp_all add: Cons)
  with T show ?case by simp
qed

lemma map_objects_id: "(\<And>l. f l = l) \<Longrightarrow> map_objects f c = c"
proof -
  assume f: "\<And>l. f l = l"
  have "map_option f (cont_objects c) = cont_objects c"
    by (cases "cont_objects c") (simp_all add: f)
  then show ?thesis
    by (cases c) (simp add: map_objects_def)
qed

lemma update_at_blank: "update_at T r (assign [] []) = T"
  unfolding update_at_def
  by (rule map_at_id, rule map_objects_id) (simp add: assign_blank)

lemma object_at_update_at:
  "object_at T (p, i) = Some x \<Longrightarrow>
   object_at (update_at T (p, i) f) (p', i') =
     (if p' = p \<and> i' = i then Some (f x) else object_at T (p', i'))"
proof (induction p arbitrary: T p')
  case Nil
  obtain nm objs cs where T: "T = Container nm objs cs" by (cases T)
  with Nil obtain l where l: "objs = Some l" "i < length l" "l ! i = x"
    by (cases objs) (auto simp: object_at_root get_default_def split: if_splits)
  with T have u: "update_at T ([], i) f = Container nm (Some (l[i := f x])) cs"
    by (simp add: update_at_def map_objects_def)
  show ?case
  proof (cases p')
    case Nil
    with T l u show ?thesis
      by (auto simp: object_at_root get_default_def nth_list_update)
  next
    case (Cons j q)
    with T u show ?thesis
      by (simp add: object_at_child)
  qed
next
  case (Cons k p)
  obtain nm objs cs where T: "T = Container nm objs cs" by (cases T)
  with Cons.prems obtain l where l: "cs = Some l" "k < length l" "object_at (l ! k) (p, i) = Some x"
    by (cases cs) (auto simp: object_at_child get_default_def split: if_splits)
  with T have u: "update_at T (k # p, i) f = Container nm objs (Some (l[k := update_at (l ! k) (p, i) f]))"
    by (simp add: update_at_def)
  show ?case
  proof (cases p')
    case Nil
    with T u show ?thesis
      by (simp add: object_at_root)
  next
    case c: (Cons j q)
    show ?thesis
    proof (cases "j = k")
      case True
      with c T u l Cons.IH [OF l(3), of q] show ?thesis
        by (simp add: object_at_child get_default_def)
    next
      case False
      with c T u l show ?thesis
        by (simp add: object_at_child get_default_def)
    qed
  qed
qed

subsection \<open>The searches write nothing\<close>

lemma get_object_info_st_unchanged:
  "get_object_info_st c n = (get_object_info c n, c)"
  "get_object_info_st_loop nm cs n = (get_object_info_loop nm cs n, cs)"
  by (induction c n and nm cs n rule: get_object_info_st_get_object_info_st_loop.induct)
     (auto simp: map_option_get_default split: option.splits sum.splits)

lemma get_object_st_unchanged:
  "get_object_st c n = (get_object c n, c)"
  "get_object_st_loop cs n = (get_object_loop cs n, cs)"
  by (induction c n and cs n rule: get_object_st_get_object_st_loop.induct)
     (auto simp: map_option_get_default split: option.splits)

lemma get_container_by_name_st_unchanged:
  "get_container_by_name_st c n = (get_container_by_name c n, c)"
  "get_container_by_name_st_loop cs n = (get_container_by_name_loop cs n, cs)"
  by (induction c n and cs n rule: get_container_by_name_st_get_container_by_name_st_loop.induct)
     (auto simp: map_option_get_default split: option.splits)

subsection \<open>Positions, paths and names\<close>

lemmas eval = examples get_default_def named_def object_truthy_def container_truthy_def
  object_info_def append_name_def subscript_def

lemma find_holds: "find P xs = Some x \<Longrightarrow> P x"
  by (induction xs) (auto split: if_splits)

lemma first_match_object_at:
  "case first_match T n of None \<Rightarrow> True | Some (r, x) \<Rightarrow> object_at T r = Some x \<and> named n x"
proof (cases "first_match T n")
  case None
  then show ?thesis by simp
next
  case (Some e)
  obtain r x where e: "e = (r, x)" by (cases e)
  from Some e have "(r, x) \<in> set (traverse T)" "named n x"
    unfolding first_match_def by (auto dest: find_in_set find_holds)
  with Some e show ?thesis by (simp add: traverse_object_at)
qed

lemma those_Some: "those xs = Some ns \<Longrightarrow> xs = map Some ns"
  by (induction xs arbitrary: ns) (auto split: option.splits)

lemma length_names_along:
  "container_at T p \<noteq> None \<Longrightarrow> length (names_along T p) = Suc (length p)"
proof (induction p arbitrary: T)
  case Nil
  show ?case by simp
next
  case (Cons j q)
  obtain nm objs cs where T: "T = Container nm objs cs" by (cases T)
  with Cons show ?case by (auto split: if_splits)
qed

lemma names_along_nth:
  "container_at T p \<noteq> None \<Longrightarrow> k \<le> length p \<Longrightarrow>
   \<exists>d. container_at T (take k p) = Some d \<and> names_along T p ! k = cont_name d"
proof (induction p arbitrary: T k)
  case Nil
  then show ?case by simp
next
  case (Cons j q)
  obtain nm objs cs where T: "T = Container nm objs cs" by (cases T)
  show ?case
  proof (cases k)
    case 0
    with T show ?thesis by simp
  next
    case (Suc k')
    from Cons.prems T have j: "j < length (get_default cs)" "container_at (get_default cs ! j) q \<noteq> None"
      by (auto split: if_splits)
    from Cons.prems Suc have "k' \<le> length q" by simp
    from Cons.IH [OF j(2) this] T Suc j(1) show ?thesis by simp
  qed
qed

lemma object_at_container_at: "object_at T r = Some x \<Longrightarrow> container_at T (fst r) \<noteq> None"
  by (auto simp: object_at_def split: option.splits)

lemma object_at_all_objects: "object_at T r = Some x \<Longrightarrow> x \<in> set (all_objects T)"
proof -
  assume "object_at T r = Some x"
  then have "(r, x) \<in> set (traverse T)" by (simp add: traverse_object_at)
  then have "snd (r, x) \<in> set (map snd (traverse T))" by (simp only: set_map) (rule imageI)
  then show ?thesis by (simp add: map_snd_traverse)
qed

lemma get_object_ref_None: "get_object_ref T n = None \<longleftrightarrow> get_object T n = None"
  by (simp add: get_object_traverse(1) get_object_ref_traverse(1))

lemma modify_object_blank: "modify_object T n [] [] = (get_object T n \<noteq> None, T)"
  by (cases "get_object_ref T n")
     (simp_all add: modify_object_def update_at_blank get_object_ref_None [symmetric])

lemma names_along_map_at:
  "names_along (map_at q (map_objects g) T) p = names_along T p"
proof (induction q arbitrary: T p)
  case Nil
  show ?case
    by (cases T; cases p) (simp_all add: map_objects_def)
next
  case (Cons j q)
  obtain nm objs cs where T: "T = Container nm objs cs" by (cases T)
  show ?case
  proof (cases p)
    case Nil
    with T show ?thesis by simp
  next
    case p: (Cons k p')
    show ?thesis
    proof (cases cs)
      case None
      with T p show ?thesis by simp
    next
      case (Some l)
      with T p Cons.IH show ?thesis
        by (auto simp: get_default_def nth_list_update)
    qed
  qed
qed

lemma filter_not_remove_first:
  "filter (\<lambda>x. \<not> named n x) (remove_first n xs) = filter (\<lambda>x. \<not> named n x) xs"
  by (induction xs) auto

lemma find_None_filter: "find P xs = None \<longleftrightarrow> filter P xs = []"
  by (induction xs) auto

lemma hd_all_containers: "hd (all_containers T) = T"
  by (cases T) simp

lemma get_object_ref_at:
  "case get_object_ref T n of
     None \<Rightarrow> get_object T n = None
   | Some r \<Rightarrow> object_at T r \<noteq> None \<and> get_object T n = object_at T r"
proof (cases "first_match T n")
  case None
  then show ?thesis
    by (simp add: get_object_traverse(1) get_object_ref_traverse(1) first_match_def)
next
  case (Some e)
  obtain r x where e: "e = (r, x)" by (cases e)
  from first_match_object_at [of T n] Some e have "object_at T r = Some x" by simp
  with Some e show ?thesis
    by (simp add: get_object_traverse(1) get_object_ref_traverse(1) first_match_def)
qed

subsection \<open>Adding an object\<close>

lemma container_at_map_at:
  "container_at T p = Some d \<Longrightarrow> container_at (map_at p g T) p = Some (g d)"
proof (induction p arbitrary: T)
  case Nil
  then show ?case by simp
next
  case (Cons j q)
  obtain nm objs cs where T: "T = Container nm objs cs" by (cases T)
  with Cons.prems obtain l where l: "cs = Some l" "j < length l" "container_at (l ! j) q = Some d"
    by (cases cs) (auto simp: get_default_def split: if_splits)
  with T Cons.IH [OF l(3)] show ?case
    by (simp add: get_default_def)
qed

lemma add_object_appends:
  assumes "get_container_for_adding data lines = Some p"
    and "container_at data p = Some (Container nm (Some l) cs)"
  shows "\<exists>data'. add_object data new_object lines = Some data'
     \<and> container_at data' p = Some (Container nm (Some (l @ [new_object])) cs)"
  using assms container_at_map_at [OF assms(2), of "append_object new_object"]
  by (simp add: add_object_def append_object_def)

section \<open>The claims\<close>

text \<open>
  C2. For every tree \<open>T\<close> and name \<open>n\<close>, \<^verbatim>\<open>get_object\<close> returns \<^verbatim>\<open>None\<close> if and only if
  no object named \<open>n\<close> is in the objects of \<open>T\<close> or of any container below \<open>T\<close>.
\<close>

theorem get_object_None_iff:
  "get_object T n = None \<longleftrightarrow> (\<forall>x \<in> set (all_objects T). obj_name x \<noteq> Some n)"
  using get_object_None(1) [of T n] by (simp add: named_def)

theorem get_object_None_iff_witness:
  "filter (\<lambda>x. obj_name x = Some ''saw'') (all_objects house) = []
   \<and> get_object house ''saw'' = None
   \<and> filter (\<lambda>x. obj_name x = Some ''hammer'') (all_objects house) = [hammer]
   \<and> get_object house ''hammer'' = Some hammer"
  using get_object_None_iff [of house "''saw''"] get_object_None_iff [of house "''hammer''"]
  by (simp add: examples get_default_def named_def object_truthy_def)

text \<open>
  C1. When several objects share a name, \<^verbatim>\<open>get_object\<close>, \<^verbatim>\<open>get_object_info\<close>,
  \<^verbatim>\<open>delete_object\<close> and \<^verbatim>\<open>modify_object\<close> return or change exactly the first object of
  that name in the traversal order (depth first, objects before containers, list order):
  each of them is determined by \<open>first_match\<close>, the first entry of \<open>traverse\<close> with the
  name, and works at its position. In particular, when container a (listed first) and
  container b (listed second) both hold a bulb, deleting the bulb empties a and leaves b
  as it was.
\<close>

theorem first_match_wins:
  "get_object T n = map_option snd (first_match T n)
   \<and> get_object_ref T n = map_option fst (first_match T n)
   \<and> get_object_info T n =
       (case first_match T n of None \<Rightarrow> Inr [] | Some (r, x) \<Rightarrow> info_at T r x)
   \<and> delete_object T n =
       (case first_match T n of None \<Rightarrow> (False, T) | Some (r, x) \<Rightarrow> (True, remove_at T r))
   \<and> modify_object T n new_name new_category =
       (case first_match T n of
          None \<Rightarrow> (False, T)
        | Some (r, x) \<Rightarrow> (True, update_at T r (assign new_name new_category)))
   \<and> (case first_match T n of None \<Rightarrow> True | Some (r, x) \<Rightarrow> object_at T r = Some x)
   \<and> delete_object house ''bulb'' =
       (True,
        Container (Some ''house'') (Some [key])
          (Some [Container (Some ''a'') (Some []) (Some []), container_b, garage]))"
proof (intro conjI)
  show "get_object T n = map_option snd (first_match T n)"
    by (simp add: first_match_def get_object_traverse(1))
  show r: "get_object_ref T n = map_option fst (first_match T n)"
    by (simp add: first_match_def get_object_ref_traverse(1))
  show "get_object_info T n =
       (case first_match T n of None \<Rightarrow> Inr [] | Some (r, x) \<Rightarrow> info_at T r x)"
    by (simp add: first_match_def get_object_info_traverse(1))
  show "delete_object T n =
       (case first_match T n of None \<Rightarrow> (False, T) | Some (r, x) \<Rightarrow> (True, remove_at T r))"
    by (simp add: delete_object_ref(1) r split: option.splits)
  show "modify_object T n new_name new_category =
       (case first_match T n of
          None \<Rightarrow> (False, T)
        | Some (r, x) \<Rightarrow> (True, update_at T r (assign new_name new_category)))"
    by (simp add: modify_object_def r split: option.splits)
  show "case first_match T n of None \<Rightarrow> True | Some (r, x) \<Rightarrow> object_at T r = Some x"
    using first_match_object_at [of T n] by (auto split: option.splits)
  show "delete_object house ''bulb'' =
       (True,
        Container (Some ''house'') (Some [key])
          (Some [Container (Some ''a'') (Some []) (Some []), container_b, garage]))"
    by (simp add: eval)
qed

theorem first_match_wins_witness:
  "first_match house ''bulb'' = Some (([0], 0), bulb)
   \<and> object_at house ([0], 0) = Some bulb
   \<and> object_at house ([1], 0) = Some bulb
   \<and> get_object_ref house ''bulb'' = Some ([0], 0)
   \<and> get_object_info house ''bulb'' = Inr [''bulb'', ''lighting'', ''a'', ''house'']
   \<and> remove_at house ([0], 0) =
       Container (Some ''house'') (Some [key])
         (Some [Container (Some ''a'') (Some []) (Some []), container_b, garage])
   \<and> modify_object house ''bulb'' ''lamp'' [] =
       (True,
        Container (Some ''house'') (Some [key])
          (Some [Container (Some ''a'') (Some [Object (Some ''lamp'') (Some ''lighting'')]) (Some []),
                 container_b, garage]))"
proof -
  have f: "first_match house ''bulb'' = Some (([0], 0), bulb)"
    by (simp add: first_match_def eval)
  from first_match_wins [of house "''bulb''" "''lamp''" "[]"] f show ?thesis
    by (simp add: eval object_at_def remove_at_def update_at_def map_objects_def assign_def)
qed

text \<open>
  C3. Whenever \<^verbatim>\<open>get_object_info\<close> finds an object, what follows the name and the
  category in its result are the names of the containers above the object, from its
  direct parent up to and including the root: reversed, the \<open>k\<close>-th of them is the name
  of the container reached from the root by the first \<open>k\<close> steps of the object's position.
  For the hammer at house, garage, shelf the reversed path is house, garage, shelf.
\<close>

theorem get_object_info_path:
  assumes "get_object_info T n = Inr result" and "result \<noteq> []"
  shows "\<exists>p i x b. first_match T n = Some ((p, i), x) \<and> object_at T (p, i) = Some x
     \<and> obj_name x = Some n \<and> obj_category x = Some b
     \<and> result = [n, b] @ drop 2 result
     \<and> map Some (rev (drop 2 result)) = names_along T p
     \<and> length (drop 2 result) = Suc (length p)
     \<and> (\<forall>k \<le> length p. \<exists>d. container_at T (take k p) = Some d
           \<and> cont_name d = Some (rev (drop 2 result) ! k))"
proof -
  from assms obtain r x where f: "first_match T n = Some (r, x)" "info_at T r x = Inr result"
    by (auto simp: get_object_info_traverse(1) first_match_def split: option.splits)
  obtain p i where r: "r = (p, i)" by (cases r)
  from first_match_object_at [of T n] f r have x: "object_at T (p, i) = Some x" "named n x"
    by auto
  from f(2) r obtain a b ns where i: "obj_name x = Some a" "obj_category x = Some b"
    "those (names_along T p) = Some ns" "result = [a, b] @ rev ns"
    by (auto simp: info_at_def split: option.splits)
  from i(3) have ns: "names_along T p = map Some ns" by (rule those_Some)
  from x(1) have c: "container_at T p \<noteq> None" by (auto dest: object_at_container_at)
  from length_names_along [OF c] ns have len: "length ns = Suc (length p)" by simp
  have nth: "\<exists>d. container_at T (take k p) = Some d \<and> cont_name d = Some (ns ! k)"
    if "k \<le> length p" for k
  proof -
    from names_along_nth [OF c that] obtain d where
      "container_at T (take k p) = Some d" "names_along T p ! k = cont_name d" by auto
    with ns len that show ?thesis by simp
  qed
  from x(2) i(1) have "a = n" by (simp add: named_def)
  with f(1) r x(1) i ns len nth show ?thesis
    by (simp add: rev_map)
qed

theorem get_object_info_path_witness:
  "get_object_info house ''hammer'' = Inr [''hammer'', ''tools'', ''shelf'', ''garage'', ''house'']
   \<and> rev (drop 2 [''hammer'', ''tools'', ''shelf'', ''garage'', ''house''])
       = [''house'', ''garage'', ''shelf'']
   \<and> (\<exists>p i x b. first_match house ''hammer'' = Some ((p, i), x)
         \<and> object_at house (p, i) = Some x
         \<and> map Some [''house'', ''garage'', ''shelf''] = names_along house p)"
proof -
  have h: "get_object_info house ''hammer'' = Inr [''hammer'', ''tools'', ''shelf'', ''garage'', ''house'']"
    by (simp add: eval)
  from get_object_info_path [OF h] h show ?thesis
    by auto
qed

text \<open>
  C4. In a tree that holds an object of the given name, \<^verbatim>\<open>modify_object\<close> returns true
  and writes into the first match only: its name becomes the new name when that is not
  empty and stays otherwise, its category becomes the new category when that is not empty
  and stays otherwise; the object at every other position and the names of all
  containers stay. With both fields blank the call changes nothing and returns true, on
  the tree as it is and again on the tree after the update, under the name the object then
  carries.
\<close>

theorem modify_object_partial_update:
  assumes "get_object T n \<noteq> None"
  shows "\<exists>r x T'. first_match T n = Some (r, x) \<and> object_at T r = Some x
     \<and> modify_object T n new_name new_category = (True, T')
     \<and> T' = update_at T r (assign new_name new_category)
     \<and> (\<forall>r'. object_at T' r' =
           (if r' = r then Some (assign new_name new_category x) else object_at T r'))
     \<and> (\<forall>p. names_along T' p = names_along T p)
     \<and> obj_name (assign new_name new_category x) =
           (if new_name = [] then obj_name x else Some new_name)
     \<and> obj_category (assign new_name new_category x) =
           (if new_category = [] then obj_category x else Some new_category)
     \<and> modify_object T n [] [] = (True, T)
     \<and> modify_object T' (if new_name = [] then n else new_name) [] [] = (True, T')"
proof -
  from assms obtain r x where f: "first_match T n = Some (r, x)"
    by (cases "first_match T n") (auto simp: get_object_traverse(1) first_match_def)
  from first_match_object_at [of T n] f have x: "object_at T r = Some x" "named n x"
    by auto
  define T' where "T' = update_at T r (assign new_name new_category)"
  from f have m: "modify_object T n new_name new_category = (True, T')"
    by (simp add: modify_object_def get_object_ref_traverse(1) first_match_def T'_def)
  have at: "object_at T' r' =
      (if r' = r then Some (assign new_name new_category x) else object_at T r')" for r'
    using object_at_update_at [of T "fst r" "snd r" x "assign new_name new_category" "fst r'" "snd r'"] x(1)
    by (simp add: T'_def prod_eq_iff)
  have nm: "obj_name (assign new_name new_category x) =
      (if new_name = [] then obj_name x else Some new_name)"
    by (simp add: assign_def Let_def)
  have cat: "obj_category (assign new_name new_category x) =
      (if new_category = [] then obj_category x else Some new_category)"
    by (simp add: assign_def Let_def)
  from at have "object_at T' r = Some (assign new_name new_category x)" by simp
  then have "assign new_name new_category x \<in> set (all_objects T')"
    by (rule object_at_all_objects)
  moreover from nm x(2) have "named (if new_name = [] then n else new_name) (assign new_name new_category x)"
    by (simp add: named_def)
  ultimately have "get_object T' (if new_name = [] then n else new_name) \<noteq> None"
    unfolding get_object_None(1) by blast
  then have again: "modify_object T' (if new_name = [] then n else new_name) [] [] = (True, T')"
    by (simp add: modify_object_blank)
  from assms have blank: "modify_object T n [] [] = (True, T)"
    by (simp add: modify_object_blank)
  have names: "names_along T' p = names_along T p" for p
    by (simp add: T'_def update_at_def names_along_map_at)
  from f x(1) m at names nm cat blank again show ?thesis
    unfolding T'_def by blast
qed

theorem modify_object_partial_update_witness:
  "get_object house ''bulb'' \<noteq> None
   \<and> modify_object house ''bulb'' [] ''lamps'' =
       (True,
        Container (Some ''house'') (Some [key])
          (Some [Container (Some ''a'') (Some [Object (Some ''bulb'') (Some ''lamps'')]) (Some []),
                 container_b, garage]))
   \<and> (\<exists>r x T'. first_match house ''bulb'' = Some (r, x)
         \<and> modify_object house ''bulb'' [] ''lamps'' = (True, T')
         \<and> modify_object T' ''bulb'' [] [] = (True, T'))"
proof -
  have h: "get_object house ''bulb'' \<noteq> None"
    by (simp add: eval)
  have m: "modify_object house ''bulb'' [] ''lamps'' =
       (True,
        Container (Some ''house'') (Some [key])
          (Some [Container (Some ''a'') (Some [Object (Some ''bulb'') (Some ''lamps'')]) (Some []),
                 container_b, garage]))"
    by (simp add: eval modify_object_def update_at_def map_objects_def assign_def)
  from modify_object_partial_update [OF h, of "[]" "''lamps''"] h m show ?thesis
    by auto
qed

text \<open>
  C5. \<^verbatim>\<open>delete_object\<close> returns whether the name occurs in the tree; the objects of the
  tree afterwards, in traversal order, are those before without the first one of that
  name, so exactly one occurrence goes and every object of another name stays, also when
  the name occurs several times. A second call with the same name returns true exactly
  when the name occurred at least twice.
\<close>

theorem delete_object_exactly_once:
  "fst (delete_object T n) = (0 < occurrences T n)
   \<and> all_objects (snd (delete_object T n)) = remove_first n (all_objects T)
   \<and> occurrences (snd (delete_object T n)) n = occurrences T n - 1
   \<and> filter (\<lambda>x. \<not> named n x) (all_objects (snd (delete_object T n)))
       = filter (\<lambda>x. \<not> named n x) (all_objects T)
   \<and> fst (delete_object (snd (delete_object T n)) n) = (2 \<le> occurrences T n)"
proof -
  have fst_delete: "fst (delete_object U n) = (0 < occurrences U n)" for U
  proof -
    have "fst (delete_object U n) = (find (named n) (all_objects U) \<noteq> None)"
      using delete_object_all(1) [of U n] by (metis fst_conv)
    also have "\<dots> = (0 < occurrences U n)"
      unfolding find_None_filter occurrences_def by simp
    finally show ?thesis .
  qed
  have a: "all_objects (snd (delete_object T n)) = remove_first n (all_objects T)"
    using delete_object_all(1) [of T n] by simp
  have c: "occurrences (snd (delete_object T n)) n = occurrences T n - 1"
    unfolding occurrences_def a by (rule filter_remove_first)
  have o: "filter (\<lambda>x. \<not> named n x) (all_objects (snd (delete_object T n)))
       = filter (\<lambda>x. \<not> named n x) (all_objects T)"
    unfolding a by (rule filter_not_remove_first)
  have "fst (delete_object (snd (delete_object T n)) n) = (0 < occurrences T n - 1)"
    unfolding fst_delete c ..
  also have "\<dots> = (2 \<le> occurrences T n)" by arith
  finally have again: "fst (delete_object (snd (delete_object T n)) n) = (2 \<le> occurrences T n)" .
  from fst_delete [of T] a c o again show ?thesis by blast
qed

theorem delete_object_exactly_once_witness:
  "occurrences house ''bulb'' = 2
   \<and> delete_object house ''bulb'' =
       (True,
        Container (Some ''house'') (Some [key])
          (Some [Container (Some ''a'') (Some []) (Some []), container_b, garage]))
   \<and> occurrences (snd (delete_object house ''bulb'')) ''bulb'' = 1
   \<and> fst (delete_object (snd (delete_object house ''bulb'')) ''bulb'') = True
   \<and> occurrences house ''hammer'' = 1
   \<and> fst (delete_object house ''hammer'') = True
   \<and> fst (delete_object (snd (delete_object house ''hammer'')) ''hammer'') = False
   \<and> fst (delete_object house ''saw'') = False"
proof -
  have b: "occurrences house ''bulb'' = 2" and h: "occurrences house ''hammer'' = 1"
    and s: "occurrences house ''saw'' = 0"
    by (simp_all add: occurrences_def eval)
  have d: "delete_object house ''bulb'' =
       (True,
        Container (Some ''house'') (Some [key])
          (Some [Container (Some ''a'') (Some []) (Some []), container_b, garage]))"
    by (simp add: eval)
  from delete_object_exactly_once [of house "''bulb''"]
    delete_object_exactly_once [of house "''hammer''"]
    delete_object_exactly_once [of house "''saw''"] b h s d
  show ?thesis by simp
qed

text \<open>
  C9. \<^verbatim>\<open>get_container_by_name\<close> returns the first container of the given name in the
  traversal order of the containers: a node before its children, the children in list
  order, depth first; the root comes first in this order. It returns \<^verbatim>\<open>None\<close> exactly
  when no container of the tree has the name. The container it returns is the one stored
  at the position \<open>get_container_ref\<close> gives.
\<close>

theorem get_container_by_name_first:
  "get_container_by_name T n = find (\<lambda>c. cont_name c = Some n) (all_containers T)
   \<and> hd (all_containers T) = T
   \<and> (get_container_by_name T n = None
        \<longleftrightarrow> (\<forall>c \<in> set (all_containers T). cont_name c \<noteq> Some n))
   \<and> (case get_container_ref T n of
         None \<Rightarrow> get_container_by_name T n = None
       | Some p \<Rightarrow> container_at T p \<noteq> None \<and> get_container_by_name T n = container_at T p)"
proof (intro conjI)
  show f: "get_container_by_name T n = find (\<lambda>c. cont_name c = Some n) (all_containers T)"
    by (rule get_container_by_name_all(1))
  show "hd (all_containers T) = T"
    by (rule hd_all_containers)
  show "get_container_by_name T n = None
        \<longleftrightarrow> (\<forall>c \<in> set (all_containers T). cont_name c \<noteq> Some n)"
    unfolding f find_None_iff by blast
  show "case get_container_ref T n of
         None \<Rightarrow> get_container_by_name T n = None
       | Some p \<Rightarrow> container_at T p \<noteq> None \<and> get_container_by_name T n = container_at T p"
    by (rule get_container_ref_at(1))
qed

theorem get_container_by_name_first_witness:
  "all_containers house =
     [house, container_a, container_b, garage, Container (Some ''shelf'') (Some [hammer]) (Some [])]
   \<and> get_container_by_name house ''house'' = Some house
   \<and> get_container_by_name house ''shelf'' = Some (Container (Some ''shelf'') (Some [hammer]) (Some []))
   \<and> get_container_ref house ''shelf'' = Some [2, 0]
   \<and> get_container_by_name house ''attic'' = None"
proof -
  have a: "all_containers house =
     [house, container_a, container_b, garage, Container (Some ''shelf'') (Some [hammer]) (Some [])]"
    by (simp add: eval)
  have r: "get_container_ref house ''shelf'' = Some [2, 0]"
    by (simp add: eval)
  from get_container_by_name_first [of house "''house''"]
    get_container_by_name_first [of house "''shelf''"]
    get_container_by_name_first [of house "''attic''"] a r
  show ?thesis
    by (simp add: eval)
qed

text \<open>
  C10. The three searches \<^verbatim>\<open>get_object_info\<close>, \<^verbatim>\<open>get_object\<close> and
  \<^verbatim>\<open>get_container_by_name\<close> leave the tree exactly as they found it: read as state
  transformers they return the tree they were given. What \<^verbatim>\<open>get_object\<close> and
  \<^verbatim>\<open>get_container_by_name\<close> return is the object or container stored at a position
  of this unchanged tree.
\<close>

theorem searches_leave_tree_unchanged:
  "get_object_info_st T n = (get_object_info T n, T)
   \<and> get_object_st T n = (get_object T n, T)
   \<and> get_container_by_name_st T n = (get_container_by_name T n, T)
   \<and> (case get_object_ref T n of
         None \<Rightarrow> get_object T n = None
       | Some r \<Rightarrow> object_at T r \<noteq> None \<and> get_object T n = object_at T r)
   \<and> (case get_container_ref T n of
         None \<Rightarrow> get_container_by_name T n = None
       | Some p \<Rightarrow> container_at T p \<noteq> None \<and> get_container_by_name T n = container_at T p)"
  using get_object_info_st_unchanged(1) [of T n] get_object_st_unchanged(1) [of T n]
    get_container_by_name_st_unchanged(1) [of T n] get_object_ref_at [of T n]
    get_container_ref_at(1) [of T n]
  by simp

theorem searches_leave_tree_unchanged_witness:
  "snd (get_object_info_st house ''hammer'') = house
   \<and> fst (get_object_info_st house ''hammer'')
       = Inr [''hammer'', ''tools'', ''shelf'', ''garage'', ''house'']
   \<and> get_object_st house ''bulb'' = (Some bulb, house)
   \<and> get_container_by_name_st house ''garage'' = (Some garage, house)
   \<and> get_object_ref house ''bulb'' = Some ([0], 0)
   \<and> get_container_ref house ''garage'' = Some [2]"
proof -
  have "get_object_info house ''hammer'' = Inr [''hammer'', ''tools'', ''shelf'', ''garage'', ''house'']"
    "get_object house ''bulb'' = Some bulb"
    "get_container_by_name house ''garage'' = Some garage"
    "get_object_ref house ''bulb'' = Some ([0], 0)"
    "get_container_ref house ''garage'' = Some [2]"
    by (simp_all add: eval)
  with searches_leave_tree_unchanged [of house "''hammer''"]
    searches_leave_tree_unchanged [of house "''bulb''"]
    searches_leave_tree_unchanged [of house "''garage''"]
  show ?thesis by simp
qed

text \<open>
  C6. The claim: on every tree, also one where a container has no \<^verbatim>\<open>name\<close>, no
  operation raises, and such a node counts as named by the empty string. Here
  \<^verbatim>\<open>get_object_info\<close> is evaluated on a tree whose only container has no name and holds
  the bulb, and on a named root with such a child: the subscript \<^verbatim>\<open>data["name"]\<close> raises
  \<^verbatim>\<open>KeyError\<close>. On the same tree \<^verbatim>\<open>get_object\<close> and \<^verbatim>\<open>get_container_by_name\<close>, which
  read the name with \<^verbatim>\<open>get\<close>, return.
\<close>

theorem get_object_info_nameless_container:
  "get_object_info (Container None (Some [bulb]) None) ''bulb'' = Inl (KeyError ''name'')
   \<and> get_object_info (Container (Some ''house'') None (Some [Container None (Some [bulb]) None]))
        ''bulb'' = Inl (KeyError ''name'')
   \<and> get_object (Container None (Some [bulb]) None) ''bulb'' = Some bulb
   \<and> get_container_by_name (Container None (Some [bulb]) None) ''house'' = None"
  by (simp add: eval)

text \<open>
  C7. The claim: the new object is appended to the objects of the chosen container, also
  when the node has no \<^verbatim>\<open>objects\<close> key. Here \<^verbatim>\<open>add_object\<close> is evaluated on
  the root without that key, chosen by name: the tree afterwards is the tree before and
  the bulb is not in it. With the key present and an empty list the bulb is appended.
\<close>

theorem add_object_missing_objects_key:
  "add_object (Container (Some ''house'') None None) bulb [''house'']
     = Some (Container (Some ''house'') None None)
   \<and> get_object (Container (Some ''house'') None None) ''bulb'' = None
   \<and> add_object (Container (Some ''house'') (Some []) None) bulb [''house'']
     = Some (Container (Some ''house'') (Some [bulb]) None)"
  by (simp add: eval add_object_def append_object_def)

text \<open>
  C8, as stated: \<^verbatim>\<open>load_json_file\<close> never raises to the caller. When \<^verbatim>\<open>open\<close> raises
  \<^verbatim>\<open>PermissionError\<close>, or reading the file raises \<^verbatim>\<open>UnicodeDecodeError\<close>, neither
  \<^verbatim>\<open>except\<close> clause handles it and the exception leaves the function.
\<close>

theorem load_json_file_raises:
  "fst (load_json_file (Inl PermissionError)) = Inl PermissionError
   \<and> fst (load_json_file (Inl UnicodeDecodeError)) = Inl UnicodeDecodeError"
  by (simp add: load_json_file_def isinstance_def)

text \<open>
  C8, amended. \<^verbatim>\<open>load_json_file\<close> returns what was parsed when nothing is raised; it
  prints a diagnostic and returns the empty dictionary when the exception is a
  \<^verbatim>\<open>FileNotFoundError\<close> or a \<^verbatim>\<open>JSONDecodeError\<close>; every other exception leaves the
  function. \<^verbatim>\<open>save_json_file\<close> prints a diagnostic and returns without raising when the
  exception is an \<^verbatim>\<open>OSError\<close> or a \<^verbatim>\<open>TypeError\<close>.
\<close>

theorem storage_failures:
  "load_json_file (Inr parsed) = (Inr parsed, False)
   \<and> (isinstance e FileNotFoundError \<or> isinstance e JSONDecodeError
        \<longrightarrow> load_json_file (Inl e) = (Inr (Container None None None), True))
   \<and> (\<not> isinstance e FileNotFoundError \<and> \<not> isinstance e JSONDecodeError
        \<longrightarrow> load_json_file (Inl e) = (Inl e, False))
   \<and> (isinstance e OSError \<or> isinstance e TypeError
        \<longrightarrow> save_json_file (Inl e) = (Inr (), True))
   \<and> save_json_file (Inr ()) = (Inr (), False)"
  by (simp add: load_json_file_def save_json_file_def)

theorem storage_failures_witness:
  "load_json_file (Inl FileNotFoundError) = (Inr (Container None None None), True)
   \<and> load_json_file (Inl JSONDecodeError) = (Inr (Container None None None), True)
   \<and> load_json_file (Inl IsADirectoryError) = (Inl IsADirectoryError, False)
   \<and> save_json_file (Inl PermissionError) = (Inr (), True)
   \<and> save_json_file (Inl TypeError) = (Inr (), True)"
  using storage_failures [of "Container None None None" FileNotFoundError] storage_failures [of "Container None None None" JSONDecodeError]
    storage_failures [of "Container None None None" IsADirectoryError] storage_failures [of "Container None None None" PermissionError]
    storage_failures [of "Container None None None" TypeError]
  by (simp add: isinstance_def)

end
